theory Spec2Isabelle
  imports Main "HOL-Library.AList"
begin

section \<open>Strings and character classes\<close>

text \<open>
  A JavaScript string is a sequence of UTF-16 code units; \<open>path[i]\<close> reads one code
  unit. Code units are natural numbers here, so that the whitespace class of the regular
  expression \<^verbatim>\<open>/\s/\<close> is the whole of it. \<open>js\<close> writes a literal.
\<close>

type_synonym jstring = "nat list"

abbreviation (input) js :: "string \<Rightarrow> jstring" where
  "js s \<equiv> map of_char s"

abbreviation (input) DOLLAR :: nat where "DOLLAR \<equiv> 36"
abbreviation (input) DOT :: nat where "DOT \<equiv> 46"
abbreviation (input) LBRACKET :: nat where "LBRACKET \<equiv> 91"
abbreviation (input) RBRACKET :: nat where "RBRACKET \<equiv> 93"
abbreviation (input) DQUOTE :: nat where "DQUOTE \<equiv> 34"
abbreviation (input) SQUOTE :: nat where "SQUOTE \<equiv> 39"
abbreviation (input) BACKSLASH :: nat where "BACKSLASH \<equiv> 92"

text \<open>\<^verbatim>\<open>/\s/\<close>: tab, LF, VT, FF, CR, space, U+00A0, U+1680, U+2000..U+200A, U+2028, U+2029,
  U+202F, U+205F, U+3000, U+FEFF.\<close>

definition is_ws :: "nat \<Rightarrow> bool" where
  "is_ws c \<longleftrightarrow>
     (9 \<le> c \<and> c \<le> 13) \<or> c = 32 \<or> c = 160 \<or> c = 5760 \<or> (8192 \<le> c \<and> c \<le> 8202) \<or>
     c = 8232 \<or> c = 8233 \<or> c = 8239 \<or> c = 8287 \<or> c = 12288 \<or> c = 65279"

text \<open>\<^verbatim>\<open>/[A-Za-z0-9_\-]/\<close> and \<^verbatim>\<open>/[0-9]/\<close>.\<close>

definition is_digit :: "nat \<Rightarrow> bool" where
  "is_digit c \<longleftrightarrow> 48 \<le> c \<and> c \<le> 57"

definition is_key_char :: "nat \<Rightarrow> bool" where
  "is_key_char c \<longleftrightarrow>
     (65 \<le> c \<and> c \<le> 90) \<or> (97 \<le> c \<and> c \<le> 122) \<or> is_digit c \<or> c = 95 \<or> c = 45"

text \<open>\<open>eatWs\<close>: \<^verbatim>\<open>while (/\s/.test(path[i])) i++\<close>. Past the end \<open>path[i]\<close> is
  \<open>undefined\<close>, which the test turns into the text "undefined": no whitespace, the loop
  stops. The cursor \<open>i\<close> is the rest of the path from \<open>i\<close> on.\<close>

definition eatWs :: "jstring \<Rightarrow> jstring" where
  "eatWs cs = dropWhile is_ws cs"

text \<open>\<open>parseInt(digits, 10)\<close> on a run of decimal digits (\<open>NaN\<close> on the empty run is
  the caller's case): the integer that the run denotes. The code has the double nearest
  to it, which is that integer itself up to \<open>2^53\<close>. For a larger index the functions
  below make no use of the integer as a property key: they ask the engine (\<open>big_key\<close>).\<close>

definition parseInt :: "jstring \<Rightarrow> nat" where
  "parseInt ds = foldl (\<lambda>a c. 10 * a + (c - 48)) 0 ds"

text \<open>\<open>Number.isFinite\<close> of a parsed run: a double overflows to \<open>Infinity\<close> from
  \<open>2^1024 - 2^970\<close> on.\<close>

definition isFinite :: "nat \<Rightarrow> bool" where
  "isFinite n \<longleftrightarrow> n < 2 ^ 1024 - 2 ^ 970"

text \<open>\<open>String(n)\<close> of a non-negative integer up to \<open>2^53\<close>: its decimal digits.\<close>

fun dec :: "nat \<Rightarrow> jstring" where
  "dec n = (if n < 10 then [48 + n] else dec (n div 10) @ [48 + n mod 10])"

declare dec.simps [simp del]

section \<open>The segment scanner\<close>

datatype segment = Key jstring | Index nat

text \<open>One turn of the \<open>while (i < path.length)\<close> loop that both functions share, up to
  its exit: a segment and the cursor after it (\<open>continue\<close>), the end of the loop
  (\<open>break\<close>, or the loop condition false), or a malformed segment (the \<open>return\<close>s).\<close>

datatype scan = Seg segment jstring | EndOfPath | Malformed

text \<open>The \<open>else\<close> branch of the bracket case: digits, whitespace, \<open>]\<close>.\<close>

definition scan_index :: "jstring \<Rightarrow> scan" where
  "scan_index cs =
     (let ds = takeWhile is_digit cs; idx = parseInt ds in
      case eatWs (dropWhile is_digit cs) of
        [] \<Rightarrow> Malformed
      | b # rest \<Rightarrow>
          if b \<noteq> RBRACKET \<or> ds = [] \<or> \<not> isFinite idx then Malformed
          else Seg (Index idx) rest)"

text \<open>The quoted branch, after the opening quote \<open>q\<close>: every code unit up to the next
  \<open>q\<close> is the key, then whitespace, then \<open>]\<close>.\<close>

definition scan_quoted :: "nat \<Rightarrow> jstring \<Rightarrow> scan" where
  "scan_quoted q cs =
     (let s = takeWhile (\<lambda>c. c \<noteq> q) cs in
      case dropWhile (\<lambda>c. c \<noteq> q) cs of
        [] \<Rightarrow> Malformed
      | _ # after \<Rightarrow>
          (case eatWs after of
             [] \<Rightarrow> Malformed
           | b # rest \<Rightarrow> if b \<noteq> RBRACKET then Malformed else Seg (Key s) rest))"

definition scan_bracket :: "jstring \<Rightarrow> scan" where
  "scan_bracket cs =
     (case eatWs cs of
        [] \<Rightarrow> scan_index []
      | q # rest \<Rightarrow>
          if q = DQUOTE \<or> q = SQUOTE then scan_quoted q rest else scan_index (q # rest))"

definition scan_dot :: "jstring \<Rightarrow> scan" where
  "scan_dot cs =
     (let r = eatWs cs; key = takeWhile is_key_char r in
      if key = [] then Malformed else Seg (Key key) (dropWhile is_key_char r))"

function scan_segment :: "jstring \<Rightarrow> scan" where
  "scan_segment path =
     (if path = [] then EndOfPath
      else case eatWs path of
        [] \<Rightarrow> EndOfPath
      | c # cs \<Rightarrow>
          if c = DOT then scan_dot cs
          else if c = LBRACKET then scan_bracket cs
          else if is_ws c then scan_segment cs
          else EndOfPath)"
  by pat_completeness auto
termination
proof (relation "measure length")
  show "wf (measure length)" by simp
next
  fix path :: jstring and c cs
  assume "eatWs path = c # cs"
  then have "length (c # cs) \<le> length path"
    unfolding eatWs_def using length_dropWhile_le [of is_ws path] by simp
  then show "(cs, path) \<in> measure length" by simp
qed

declare scan_segment.simps [simp del]

text \<open>Every segment moves the cursor forward: the loops below terminate.\<close>

lemma length_eatWs: "length (eatWs cs) \<le> length cs"
  unfolding eatWs_def by (rule length_dropWhile_le)

lemma eatWs_Cons_length: "eatWs cs = c # r \<Longrightarrow> length r < length cs"
  using length_eatWs [of cs] by simp

lemma dropWhile_Cons_length: "dropWhile P cs = c # r \<Longrightarrow> length r < length cs"
  using length_dropWhile_le [of P cs] by simp

lemma scan_index_shorter: "scan_index cs = Seg s r \<Longrightarrow> length r < length cs"
  unfolding scan_index_def Let_def
  by (auto split: list.splits if_splits dest!: eatWs_Cons_length
      intro: less_le_trans [OF _ length_dropWhile_le])

lemma scan_quoted_shorter: "scan_quoted q cs = Seg s r \<Longrightarrow> length r < length cs"
  unfolding scan_quoted_def Let_def
  by (auto split: list.splits if_splits dest!: eatWs_Cons_length dropWhile_Cons_length)

lemma scan_bracket_shorter: "scan_bracket cs = Seg s r \<Longrightarrow> length r < Suc (length cs)"
  unfolding scan_bracket_def
  by (auto split: list.splits if_splits
      dest!: eatWs_Cons_length scan_quoted_shorter scan_index_shorter)

lemma scan_dot_shorter: "scan_dot cs = Seg s r \<Longrightarrow> length r < Suc (length cs)"
  unfolding scan_dot_def Let_def
  by (auto split: if_splits
      intro: le_less_trans [OF length_dropWhile_le] le_imp_less_Suc length_eatWs)

lemma scan_segment_shorter: "scan_segment path = Seg s r \<Longrightarrow> length r < length path"
proof (induction path rule: scan_segment.induct)
  case (1 path)
  show ?case
  proof (cases "eatWs path")
    case Nil
    with "1.prems" show ?thesis by (simp add: scan_segment.simps [of path] split: if_splits)
  next
    case (Cons c cs)
    then have len: "length cs < length path" by (rule eatWs_Cons_length)
    from "1.prems" Cons have ne: "path \<noteq> []"
      by (auto simp: scan_segment.simps [of path])
    consider (dot) "c = DOT" | (br) "c \<noteq> DOT" "c = LBRACKET"
      | (ws) "c \<noteq> DOT" "c \<noteq> LBRACKET" "is_ws c" | (other) "c \<noteq> DOT" "c \<noteq> LBRACKET" "\<not> is_ws c"
      by blast
    then show ?thesis
    proof cases
      case dot
      with "1.prems" Cons ne have "scan_dot cs = Seg s r"
        by (simp add: scan_segment.simps [of path])
      from scan_dot_shorter [OF this] len show ?thesis by simp
    next
      case br
      with "1.prems" Cons ne have "scan_bracket cs = Seg s r"
        by (simp add: scan_segment.simps [of path])
      from scan_bracket_shorter [OF this] len show ?thesis by simp
    next
      case ws
      with "1.prems" Cons ne have "scan_segment cs = Seg s r"
        by (simp add: scan_segment.simps [of path])
      with "1.IH" [OF ne Cons] ws have "length r < length cs" by simp
      with len show ?thesis by simp
    next
      case other
      with "1.prems" Cons ne show ?thesis
        by (simp add: scan_segment.simps [of path])
    qed
  qed
qed

text \<open>The first pass of \<open>setTinyJsonPath\<close>: every segment up to the end of the loop.
  \<open>None\<close> is \<open>return false\<close>. What is left of the path where the loop breaks is dropped:
  the code does not look at \<open>i\<close> after the loop.\<close>

function tokenize :: "jstring \<Rightarrow> segment list option" where
  "tokenize path =
     (case scan_segment path of
        EndOfPath \<Rightarrow> Some []
      | Malformed \<Rightarrow> None
      | Seg s rest \<Rightarrow> (case tokenize rest of None \<Rightarrow> None | Some segs \<Rightarrow> Some (s # segs)))"
  by pat_completeness auto
termination
  by (relation "measure length") (auto dest: scan_segment_shorter)

declare tokenize.simps [simp del]

section \<open>Values and property access\<close>

text \<open>
  The values the two functions meet. An object is its own properties in insertion order;
  an array is its elements (\<open>None\<close> is a hole), so its \<open>length\<close>, and its other own
  properties. Numbers are opaque to the code and stand as integers. \<open>Builtin kind name\<close>
  is an object of the engine itself, a function or a prototype object, which a read
  through the prototype chain hands out; \<open>kind\<close> is what \<open>typeof\<close> and \<open>Array.isArray\<close>
  say of it. The structure is a tree: a container is reached through one parent only, and
  an in-place mutation of a child is the parent with that child replaced.
\<close>

datatype kind = IsFunction | IsObject | IsArray

datatype jsval =
    Undefined | Null | Bool bool | Num int | Str jstring | Builtin kind jstring
  | Obj "(jstring \<times> jsval) list"
  | Arr "jsval option list" "(jstring \<times> jsval) list"

text \<open>
  How a call ends when it does not return: the error it throws, or \<open>Beyond\<close>. \<open>Beyond\<close>
  is no behaviour of the code: it marks the point where a call writes to an object of the
  engine or replaces a prototype, which a tree of values cannot record, or where the
  description of the engine at hand leaves a question open. Nothing is stated about the
  code there.
\<close>

datatype js_error = TypeError | RangeError | Beyond

text \<open>
  What the code uses of the JavaScript engine and the repository does not define, as a
  parameter. \<open>engine_get v k\<close> is the read \<open>v[k]\<close> where \<open>v\<close> has no own property \<open>k\<close>
  in this model: what the prototype chain of a value gives (a member, \<open>undefined\<close>, or
  the error a getter throws), and every property of an object of the engine.
  \<open>to_length v\<close> is the array length that a string, an object or a function converts to
  (\<open>ToNumber\<close> and the range check of an array's \<open>length\<close>), or the error of the
  conversion. \<open>big_key n\<close> is the property key of an index above \<open>2^53\<close>:
  \<open>String\<close> of the double nearest to \<open>n\<close>.
\<close>

record runtime =
  engine_get :: "jsval \<Rightarrow> jstring \<Rightarrow> js_error + jsval"
  to_length :: "jsval \<Rightarrow> js_error + nat"
  big_key :: "nat \<Rightarrow> js_error + jstring"

text \<open>An array has at most \<open>2^32 - 1\<close> elements; its indices are below that. A double
  holds every integer up to \<open>2^53\<close>.\<close>

abbreviation (input) MAX_LENGTH :: nat where "MAX_LENGTH \<equiv> 4294967295"

abbreviation (input) MAX_EXACT :: nat where "MAX_EXACT \<equiv> 9007199254740992"

text \<open>A property key that is an array index: the decimal form, without leading zeros, of
  an integer below \<open>2^32 - 1\<close>.\<close>

definition array_index :: "jstring \<Rightarrow> nat option" where
  "array_index k =
     (if k \<noteq> [] \<and> list_all is_digit k \<and> (k = [48] \<or> hd k \<noteq> 48) \<and> parseInt k < MAX_LENGTH
      then Some (parseInt k) else None)"

definition is_nullish :: "jsval \<Rightarrow> bool" where
  "is_nullish v = (case v of Undefined \<Rightarrow> True | Null \<Rightarrow> True | _ \<Rightarrow> False)"

text \<open>\<open>typeof v === 'object'\<close> and \<open>Array.isArray(v)\<close>.\<close>

definition typeof_object :: "jsval \<Rightarrow> bool" where
  "typeof_object v =
     (case v of Null \<Rightarrow> True | Obj _ \<Rightarrow> True | Arr _ _ \<Rightarrow> True
      | Builtin kd _ \<Rightarrow> kd \<noteq> IsFunction | _ \<Rightarrow> False)"

definition isArray :: "jsval \<Rightarrow> bool" where
  "isArray v = (case v of Arr _ _ \<Rightarrow> True | Builtin kd _ \<Rightarrow> kd = IsArray | _ \<Rightarrow> False)"

text \<open>An object or an array of the structure.\<close>

definition is_container :: "jsval \<Rightarrow> bool" where
  "is_container v = (case v of Obj _ \<Rightarrow> True | Arr _ _ \<Rightarrow> True | _ \<Rightarrow> False)"

text \<open>The own property \<open>k\<close> of a value: a string has its \<open>length\<close> and its code units, an
  array its \<open>length\<close>, its elements and its named properties. The properties of an
  object of the engine are not held here: every read of one is \<open>engine_get\<close>.\<close>

definition own_prop :: "jsval \<Rightarrow> jstring \<Rightarrow> jsval option" where
  "own_prop v k =
     (case v of
        Str s \<Rightarrow>
          if k = js ''length'' then Some (Num (int (length s)))
          else (case array_index k of
                  Some i \<Rightarrow> if i < length s then Some (Str [s ! i]) else None
                | None \<Rightarrow> None)
      | Obj ps \<Rightarrow> map_of ps k
      | Arr es ps \<Rightarrow>
          if k = js ''length'' then Some (Num (int (length es)))
          else (case array_index k of
                  Some i \<Rightarrow> if i < length es then es ! i else None
                | None \<Rightarrow> map_of ps k)
      | _ \<Rightarrow> None)"

text \<open>\<open>v[k]\<close>: a \<open>TypeError\<close> on \<open>null\<close> and \<open>undefined\<close>; otherwise the own property,
  or what the engine finds.\<close>

definition get_prop :: "runtime \<Rightarrow> jsval \<Rightarrow> jstring \<Rightarrow> js_error + jsval" where
  "get_prop rt v k =
     (if is_nullish v then Inl TypeError
      else case own_prop v k of
        Some x \<Rightarrow> Inr x
      | None \<Rightarrow> engine_get rt v k)"

text \<open>Storing an element: the array grows to hold index \<open>i\<close>, with holes.\<close>

definition put_index :: "jsval option list \<Rightarrow> nat \<Rightarrow> jsval \<Rightarrow> jsval option list" where
  "put_index es i v = (es @ replicate (Suc i - length es) None)[i := Some v]"

text \<open>Defining or updating an own data property of a container, other than an array's
  \<open>length\<close>. Whether an assignment comes to this is \<open>set_prop\<close>'s to say.\<close>

definition put_prop :: "jsval \<Rightarrow> jstring \<Rightarrow> jsval \<Rightarrow> jsval" where
  "put_prop c k v =
     (case c of
        Obj ps \<Rightarrow> Obj (AList.update k v ps)
      | Arr es ps \<Rightarrow>
          (case array_index k of
             Some i \<Rightarrow> Arr (put_index es i v) ps
           | None \<Rightarrow> Arr es (AList.update k v ps))
      | _ \<Rightarrow> c)"

text \<open>The length that \<open>arr.length = v\<close> asks for.\<close>

definition length_of :: "runtime \<Rightarrow> jsval \<Rightarrow> js_error + nat" where
  "length_of rt v =
     (case v of
        Undefined \<Rightarrow> Inl RangeError
      | Null \<Rightarrow> Inr 0
      | Bool b \<Rightarrow> Inr (if b then 1 else 0)
      | Num n \<Rightarrow> if 0 \<le> n \<and> n \<le> int MAX_LENGTH then Inr (nat n) else Inl RangeError
      | _ \<Rightarrow> to_length rt v)"

definition set_length :: "runtime \<Rightarrow> jsval option list \<Rightarrow> jsval \<Rightarrow> js_error + jsval option list" where
  "set_length rt es v =
     (case length_of rt v of
        Inl e \<Rightarrow> Inl e
      | Inr n \<Rightarrow> Inr (if n \<le> length es then take n es else es @ replicate (n - length es) None))"

text \<open>The key \<open>__proto__\<close>, where the value has no own property of that name, is the
  accessor of \<open>Object.prototype\<close> (Annex B of the standard): an assignment runs its
  setter. The setter does nothing when the value assigned is no object and not \<open>null\<close>,
  or when the receiver is a primitive; otherwise it replaces the prototype of the
  receiver.\<close>

definition accessor_key :: "jsval \<Rightarrow> jstring \<Rightarrow> bool" where
  "accessor_key c k \<longleftrightarrow> k = js ''__proto__'' \<and> own_prop c k = None"

definition proto_set :: "jsval \<Rightarrow> jsval \<Rightarrow> js_error + jsval" where
  "proto_set c v =
     (case v of
        Undefined \<Rightarrow> Inr c | Bool _ \<Rightarrow> Inr c | Num _ \<Rightarrow> Inr c | Str _ \<Rightarrow> Inr c
      | _ \<Rightarrow> if is_container c then Inl Beyond else Inr c)"

text \<open>\<open>c[k] = v\<close> in strict mode (the code is an ES module): a \<open>TypeError\<close> on \<open>null\<close>
  and \<open>undefined\<close>, the setter for the accessor key, a \<open>TypeError\<close> on a primitive, an
  own data property on an object or an array.\<close>

definition set_prop :: "runtime \<Rightarrow> jsval \<Rightarrow> jstring \<Rightarrow> jsval \<Rightarrow> js_error + jsval" where
  "set_prop rt c k v =
     (if is_nullish c then Inl TypeError
      else case c of
        Builtin _ _ \<Rightarrow> Inl Beyond
      | Obj ps \<Rightarrow> if accessor_key c k then proto_set c v else Inr (put_prop c k v)
      | Arr es ps \<Rightarrow>
          if k = js ''length''
          then (case set_length rt es v of Inl e \<Rightarrow> Inl e | Inr es' \<Rightarrow> Inr (Arr es' ps))
          else if accessor_key c k then proto_set c v
          else Inr (put_prop c k v)
      | _ \<Rightarrow> if accessor_key c k then proto_set c v else Inl TypeError)"

text \<open>The key under which a segment reads and writes: \<open>cur[idx]\<close> is \<open>cur[String(idx)]\<close>.\<close>

definition seg_key :: "runtime \<Rightarrow> segment \<Rightarrow> js_error + jstring" where
  "seg_key rt seg =
     (case seg of
        Key k \<Rightarrow> Inr k
      | Index idx \<Rightarrow> if idx \<le> MAX_EXACT then Inr (dec idx) else big_key rt idx)"

section \<open>getTinyJsonPath\<close>

text \<open>The result of a call: the value it returns, or how it ends otherwise.\<close>

function lookup_loop :: "runtime \<Rightarrow> jsval \<Rightarrow> jstring \<Rightarrow> js_error + jsval" where
  "lookup_loop rt cur path =
     (case scan_segment path of
        EndOfPath \<Rightarrow> Inr cur
      | Malformed \<Rightarrow> Inr Undefined
      | Seg (Key key) rest \<Rightarrow>
          if is_nullish cur then Inr Undefined
          else (case get_prop rt cur key of
                  Inl e \<Rightarrow> Inl e
                | Inr v \<Rightarrow> lookup_loop rt v rest)
      | Seg (Index idx) rest \<Rightarrow>
          if \<not> isArray cur then Inr Undefined
          else (case seg_key rt (Index idx) of
                  Inl e \<Rightarrow> Inl e
                | Inr key \<Rightarrow>
                    (case get_prop rt cur key of
                       Inl e \<Rightarrow> Inl e
                     | Inr v \<Rightarrow> lookup_loop rt v rest)))"
  by pat_completeness auto
termination
  by (relation "measure (\<lambda>(rt, cur, path). length path)") (auto dest: scan_segment_shorter)

declare lookup_loop.simps [simp del]

definition getTinyJsonPath :: "runtime \<Rightarrow> jsval \<Rightarrow> jstring \<Rightarrow> js_error + jsval" where
  "getTinyJsonPath rt obj path =
     (case path of
        [] \<Rightarrow> Inr Undefined
      | c # rest \<Rightarrow> if c \<noteq> DOLLAR then Inr Undefined else lookup_loop rt obj rest)"

section \<open>setTinyJsonPath\<close>

text \<open>\<open>(next.type === 'index') ? [] : {}\<close>\<close>

definition fresh_for :: "segment \<Rightarrow> jsval" where
  "fresh_for next = (case next of Index _ \<Rightarrow> Arr [] [] | Key _ \<Rightarrow> Obj [])"

text \<open>The final segment. The result is the structure as the call leaves it and what the
  call returns or how it ends. An index at or beyond the length makes the array grow
  first, which fails for every index from \<open>2^32 - 1\<close> on; no array is long enough to hold
  an index above \<open>2^53\<close>.\<close>

definition assign_last :: "runtime \<Rightarrow> segment \<Rightarrow> jsval \<Rightarrow> jsval \<Rightarrow> jsval \<times> (js_error + bool)" where
  "assign_last rt fin v cur =
     (case fin of
        Key k \<Rightarrow>
          if is_nullish cur \<or> \<not> typeof_object cur then (cur, Inr False)
          else (case set_prop rt cur k v of
                  Inl e \<Rightarrow> (cur, Inl e)
                | Inr cur' \<Rightarrow> (cur', Inr True))
      | Index idx \<Rightarrow>
          if \<not> isArray cur then (cur, Inr False)
          else (case cur of
             Arr es ps \<Rightarrow>
               (case (if idx \<ge> length es
                      then set_prop rt cur (js ''length'') (Num (int idx + 1))
                      else Inr cur) of
                  Inl e \<Rightarrow> (cur, Inl e)
                | Inr cur1 \<Rightarrow>
                    if MAX_EXACT < idx then (cur1, Inl Beyond)
                    else (case set_prop rt cur1 (dec idx) v of
                            Inl e \<Rightarrow> (cur1, Inl e)
                          | Inr cur2 \<Rightarrow> (cur2, Inr True)))
           | _ \<Rightarrow> (cur, Inl Beyond)))"

text \<open>The second pass. A segment before the last reads its slot, fills an absent one with
  a fresh container, refuses a slot that is no object, and goes down (\<open>enter\<close>:
  \<open>cur = cur[seg.key]\<close> and the rest of the loop); \<open>idx < 0\<close> never holds of a parsed
  index. The mutation of the child happens in place: the walk returns the container with
  the child as the rest of the walk left it. A child that is no own property of the
  container is the engine's: nothing is put back, and a container shared through the
  prototype chain is beyond a tree of values. The walk never starts on the empty list:
  \<open>segs.length === 0\<close> has returned \<open>false\<close> before.\<close>

fun assign_walk :: "runtime \<Rightarrow> segment list \<Rightarrow> jsval \<Rightarrow> jsval \<Rightarrow> jsval \<times> (js_error + bool)"
  and enter :: "runtime \<Rightarrow> segment list \<Rightarrow> jsval \<Rightarrow> jsval \<Rightarrow> jstring \<Rightarrow> jsval \<times> (js_error + bool)"
where
  "assign_walk rt [] v cur = (cur, Inr False)"
| "assign_walk rt [fin] v cur = assign_last rt fin v cur"
| "assign_walk rt (Key key # next # rest) v cur =
     (case get_prop rt cur key of
        Inl e \<Rightarrow> (cur, Inl e)
      | Inr slot \<Rightarrow>
          if is_nullish slot then
            (case set_prop rt cur key (fresh_for next) of
               Inl e \<Rightarrow> (cur, Inl e)
             | Inr cur' \<Rightarrow> enter rt (next # rest) v cur' key)
          else if \<not> typeof_object slot then (cur, Inr False)
          else enter rt (next # rest) v cur key)"
| "assign_walk rt (Index idx # next # rest) v cur =
     (if \<not> isArray cur then (cur, Inr False)
      else case seg_key rt (Index idx) of
        Inl e \<Rightarrow> (cur, Inl e)
      | Inr key \<Rightarrow>
          (case get_prop rt cur key of
             Inl e \<Rightarrow> (cur, Inl e)
           | Inr slot \<Rightarrow>
               if is_nullish slot then
                 (case set_prop rt cur key (fresh_for next) of
                    Inl e \<Rightarrow> (cur, Inl e)
                  | Inr cur' \<Rightarrow> enter rt (next # rest) v cur' key)
               else if \<not> typeof_object slot then (cur, Inr False)
               else enter rt (next # rest) v cur key))"
| "enter rt segs v cur key =
     (case get_prop rt cur key of
        Inl e \<Rightarrow> (cur, Inl e)
      | Inr child \<Rightarrow>
          if own_prop cur key = None \<and> is_container child then (cur, Inl Beyond)
          else (case assign_walk rt segs v child of
                  (child', r) \<Rightarrow>
                    (if own_prop cur key = None then cur else put_prop cur key child', r)))"

definition setTinyJsonPath ::
  "runtime \<Rightarrow> jsval \<Rightarrow> jstring \<Rightarrow> jsval \<Rightarrow> jsval \<times> (js_error + bool)" where
  "setTinyJsonPath rt obj path v =
     (case path of
        [] \<Rightarrow> (obj, Inr False)
      | c # rest \<Rightarrow>
          if c \<noteq> DOLLAR then (obj, Inr False)
          else (case tokenize rest of
                  None \<Rightarrow> (obj, Inr False)
                | Some segs \<Rightarrow>
                    if segs = [] then (obj, Inr False) else assign_walk rt segs v obj))"

section \<open>An engine for the examples\<close>

text \<open>
  What the standard fixes of the engine, as far as the examples need it; \<open>Beyond\<close> where
  this description stops. Every value of the structure inherits the function members of
  \<open>Object.prototype\<close> (a more specific prototype may put a function of its own in
  their place) and reads its prototype under \<open>__proto__\<close>. A plain object inherits
  nothing else, and no prototype has a member whose name is a run of digits. Reading
  \<open>caller\<close> or \<open>arguments\<close> of a built-in function runs the getter of
  \<open>Function.prototype\<close>, which throws a \<open>TypeError\<close>.
\<close>

definition object_prototype :: "jstring list" where
  "object_prototype =
     [js ''constructor'', js ''hasOwnProperty'', js ''isPrototypeOf'',
      js ''propertyIsEnumerable'', js ''toLocaleString'', js ''toString'', js ''valueOf'',
      js ''__defineGetter__'', js ''__defineSetter__'', js ''__lookupGetter__'',
      js ''__lookupSetter__'']"

definition engine_read :: "jsval \<Rightarrow> jstring \<Rightarrow> js_error + jsval" where
  "engine_read v k =
     (case v of
        Undefined \<Rightarrow> Inl TypeError
      | Null \<Rightarrow> Inl TypeError
      | Builtin kd b \<Rightarrow>
          if kd = IsFunction \<and> (k = js ''caller'' \<or> k = js ''arguments'') then Inl TypeError
          else Inl Beyond
      | _ \<Rightarrow>
          if k \<in> set object_prototype then Inr (Builtin IsFunction k)
          else if k = js ''__proto__'' then Inr (Builtin (if isArray v then IsArray else IsObject) k)
          else if (case v of Obj _ \<Rightarrow> True | _ \<Rightarrow> False) \<or> (k \<noteq> [] \<and> list_all is_digit k)
          then Inr Undefined
          else Inl Beyond)"

definition engine :: runtime where
  "engine = \<lparr> engine_get = engine_read,
              to_length = (\<lambda>v. Inl Beyond),
              big_key = (\<lambda>n. Inl Beyond) \<rparr>"

section \<open>Notions the statements use\<close>

text \<open>
  The paths of the grammar, with the places where whitespace may stand: before a segment,
  after the dot, after the opening bracket and before the closing one. A well-formed path
  is \<open>$\<close>, the written segments, and trailing whitespace. \<open>unspaced\<close> takes the
  whitespace out; \<open>segment_of\<close> is the segment the code should read.
\<close>

datatype written =
    WDot jstring jstring jstring
  | WQuoted jstring jstring nat jstring jstring
  | WIndex jstring jstring jstring jstring

fun render :: "written \<Rightarrow> jstring" where
  "render (WDot w0 w1 key) = w0 @ [DOT] @ w1 @ key"
| "render (WQuoted w0 w1 q key w2) = w0 @ [LBRACKET] @ w1 @ [q] @ key @ [q] @ w2 @ [RBRACKET]"
| "render (WIndex w0 w1 ds w2) = w0 @ [LBRACKET] @ w1 @ ds @ w2 @ [RBRACKET]"

fun well_formed :: "written \<Rightarrow> bool" where
  "well_formed (WDot w0 w1 key) =
     (list_all is_ws w0 \<and> list_all is_ws w1 \<and> key \<noteq> [] \<and> list_all is_key_char key)"
| "well_formed (WQuoted w0 w1 q key w2) =
     (list_all is_ws w0 \<and> list_all is_ws w1 \<and> list_all is_ws w2 \<and>
      (q = DQUOTE \<or> q = SQUOTE) \<and> q \<notin> set key)"
| "well_formed (WIndex w0 w1 ds w2) =
     (list_all is_ws w0 \<and> list_all is_ws w1 \<and> list_all is_ws w2 \<and>
      ds \<noteq> [] \<and> list_all is_digit ds \<and> isFinite (parseInt ds))"

fun segment_of :: "written \<Rightarrow> segment" where
  "segment_of (WDot w0 w1 key) = Key key"
| "segment_of (WQuoted w0 w1 q key w2) = Key key"
| "segment_of (WIndex w0 w1 ds w2) = Index (parseInt ds)"

fun unspaced :: "written \<Rightarrow> written" where
  "unspaced (WDot w0 w1 key) = WDot [] [] key"
| "unspaced (WQuoted w0 w1 q key w2) = WQuoted [] [] q key []"
| "unspaced (WIndex w0 w1 ds w2) = WIndex [] [] ds []"

definition written_path :: "written list \<Rightarrow> jstring \<Rightarrow> jstring" where
  "written_path ws trail = DOLLAR # concat (map render ws) @ trail"

definition stops_key :: "jstring \<Rightarrow> bool" where
  "stops_key tail = (case tail of [] \<Rightarrow> True | c # _ \<Rightarrow> \<not> is_key_char c)"

text \<open>\<open>getTinyJsonPath\<close> on a path already cut into segments.\<close>

fun lookup_segs :: "runtime \<Rightarrow> jsval \<Rightarrow> segment list \<Rightarrow> js_error + jsval" where
  "lookup_segs rt cur [] = Inr cur"
| "lookup_segs rt cur (Key key # segs) =
     (if is_nullish cur then Inr Undefined
      else case get_prop rt cur key of Inl e \<Rightarrow> Inl e | Inr v \<Rightarrow> lookup_segs rt v segs)"
| "lookup_segs rt cur (Index idx # segs) =
     (if \<not> isArray cur then Inr Undefined
      else case seg_key rt (Index idx) of
        Inl e \<Rightarrow> Inl e
      | Inr key \<Rightarrow>
          (case get_prop rt cur key of Inl e \<Rightarrow> Inl e | Inr v \<Rightarrow> lookup_segs rt v segs))"

text \<open>The code points below \<open>2^16\<close> with the Unicode property White_Space. The class
  \<^verbatim>\<open>/\s/\<close> of the code differs from it in two places: it lacks U+0085 and has U+FEFF.\<close>

definition unicode_white_space :: "nat \<Rightarrow> bool" where
  "unicode_white_space c \<longleftrightarrow>
     (9 \<le> c \<and> c \<le> 13) \<or> c = 32 \<or> c = 133 \<or> c = 160 \<or> c = 5760 \<or>
     (8192 \<le> c \<and> c \<le> 8202) \<or> c = 8232 \<or> c = 8233 \<or> c = 8239 \<or> c = 8287 \<or> c = 12288"



section \<open>Running the code on concrete inputs\<close>

lemmas scan_eval =
  scan_segment.simps tokenize.simps lookup_loop.simps eatWs_def scan_dot_def
  scan_bracket_def scan_quoted_def scan_index_def is_ws_def is_digit_def is_key_char_def
  parseInt_def isFinite_def Let_def

lemmas val_eval =
  getTinyJsonPath_def setTinyJsonPath_def assign_last_def get_prop_def set_prop_def
  put_prop_def own_prop_def is_nullish_def typeof_object_def isArray_def is_container_def
  fresh_for_def seg_key_def array_index_def put_index_def set_length_def length_of_def
  accessor_key_def proto_set_def engine_def engine_read_def object_prototype_def

text \<open>
  C2. The claim: when the scan stops on an unrecognised character before the end of the
  path, \<open>setTinyJsonPath\<close> returns \<open>false\<close> and mutates nothing. The code at
  \<open>setTinyJsonPath({}, "$.a#b", 1)\<close>: the loop breaks at \<open>#\<close> with one segment held,
  nothing compares \<open>i\<close> with the length of the path, and the call stores 1 under \<open>a\<close> and
  returns \<open>true\<close>.
\<close>

theorem trailing_garbage_is_assigned:
  "setTinyJsonPath rt (Obj []) (js ''$.a#b'') (Num 1) = (Obj [(js ''a'', Num 1)], Inr True)"
  by (simp add: scan_eval val_eval)

text \<open>
  C3. There are a structure, a path and a value for which the path tokenizes, the call
  returns \<open>false\<close> at a later segment, and a container created for an earlier segment
  stays: \<open>setTinyJsonPath({}, "$.a.constructor.b", 1)\<close> creates \<open>a\<close>, finds the
  inherited function \<open>constructor\<close> in the new object (not \<open>null\<close>, and no object),
  returns \<open>false\<close> and leaves \<open>{a: {}}\<close>. A failure of the first pass, the scan,
  always leaves the structure as it was.
\<close>

theorem late_failure_keeps_created_containers:
  "(\<exists>obj path v obj'.
     tokenize (tl path) = Some [Key (js ''a''), Key (js ''constructor''), Key (js ''b'')] \<and>
     setTinyJsonPath engine obj path v = (obj', Inr False) \<and>
     get_prop engine obj (js ''a'') = Inr Undefined \<and>
     get_prop engine obj' (js ''a'') = Inr (Obj [])) \<and>
   (tokenize rest = None \<longrightarrow> setTinyJsonPath rt root (DOLLAR # rest) w = (root, Inr False))"
proof -
  have "tokenize (tl (js ''$.a.constructor.b'')) =
          Some [Key (js ''a''), Key (js ''constructor''), Key (js ''b'')]"
    by (simp add: scan_eval)
  moreover have "setTinyJsonPath engine (Obj []) (js ''$.a.constructor.b'') (Num 1) =
          (Obj [(js ''a'', Obj [])], Inr False)"
    by (simp add: scan_eval val_eval)
  moreover have "get_prop engine (Obj []) (js ''a'') = Inr Undefined"
    by (simp add: val_eval)
  moreover have "get_prop engine (Obj [(js ''a'', Obj [])]) (js ''a'') = Inr (Obj [])"
    by (simp add: val_eval)
  moreover have "tokenize rest = None \<longrightarrow>
      setTinyJsonPath rt root (DOLLAR # rest) w = (root, Inr False)"
    by (simp add: setTinyJsonPath_def)
  ultimately show ?thesis by blast
qed

theorem late_failure_keeps_created_containers_witness:
  "tokenize (js ''.a['') = None \<and>
   setTinyJsonPath engine (Obj [(js ''b'', Num 2)]) (js ''$.a['') (Num 1) =
     (Obj [(js ''b'', Num 2)], Inr False)"
proof -
  have t: "tokenize (js ''.a['') = None" by (simp add: scan_eval)
  from late_failure_keeps_created_containers
    [where rest = "js ''.a[''" and rt = engine and root = "Obj [(js ''b'', Num 2)]" and w = "Num 1"]
  show ?thesis using t by simp
qed

text \<open>
  C4. The claim: no call signals a failure through an exception. The code at
  \<open>setTinyJsonPath(null, "$.a.b", 1)\<close>: the walk reads \<open>cur[seg.key]\<close> with \<open>cur\<close> the
  root \<open>null\<close>, before any check of \<open>cur\<close>, and the read throws a \<open>TypeError\<close>.
\<close>

theorem assign_null_root_throws:
  "setTinyJsonPath rt Null (js ''$.a.b'') (Num 1) = (Null, Inl TypeError)"
  by (simp add: scan_eval val_eval)

text \<open>The two branches of the walk, key and index, in one equation.\<close>

lemma assign_walk_step:
  "assign_walk rt (seg # next # rest) v cur =
     (if (case seg of Index _ \<Rightarrow> \<not> isArray cur | Key _ \<Rightarrow> False) then (cur, Inr False)
      else case seg_key rt seg of
        Inl e \<Rightarrow> (cur, Inl e)
      | Inr key \<Rightarrow>
          (case get_prop rt cur key of
             Inl e \<Rightarrow> (cur, Inl e)
           | Inr slot \<Rightarrow>
               if is_nullish slot then
                 (case set_prop rt cur key (fresh_for next) of
                    Inl e \<Rightarrow> (cur, Inl e)
                  | Inr cur' \<Rightarrow> enter rt (next # rest) v cur' key)
               else if \<not> typeof_object slot then (cur, Inr False)
               else enter rt (next # rest) v cur key))"
proof (cases seg)
  case (Key k)
  then show ?thesis by (simp add: seg_key_def del: enter.simps)
next
  case (Index idx)
  then show ?thesis by (simp del: enter.simps)
qed

lemma isArray_not_nullish: "isArray v \<Longrightarrow> \<not> is_nullish v"
  by (cases v) (simp_all add: isArray_def is_nullish_def)

section \<open>Decimal keys\<close>

lemma parseInt_snoc: "parseInt (ds @ [c]) = 10 * parseInt ds + (c - 48)"
  by (simp add: parseInt_def)

lemma parseInt_dec: "parseInt (dec n) = n"
proof (induction n rule: dec.induct)
  case (1 n)
  show ?case
  proof (cases "n < 10")
    case True
    then show ?thesis by (simp add: dec.simps [of n] parseInt_def)
  next
    case False
    with 1 show ?thesis by (simp add: dec.simps [of n] parseInt_snoc)
  qed
qed

lemma dec_digits: "list_all is_digit (dec n)"
proof (induction n rule: dec.induct)
  case (1 n)
  show ?case
  proof (cases "n < 10")
    case True
    then show ?thesis by (simp add: dec.simps [of n] is_digit_def)
  next
    case False
    have "n mod 10 < 10" by simp
    then have "is_digit (48 + n mod 10)" unfolding is_digit_def by linarith
    with False 1 show ?thesis by (simp add: dec.simps [of n])
  qed
qed

lemma dec_nonempty: "dec n \<noteq> []"
  by (simp add: dec.simps [of n])

lemma dec_no_leading_zero: "dec n = [48] \<or> hd (dec n) \<noteq> 48"
proof (induction n rule: dec.induct)
  case (1 n)
  show ?case
  proof (cases "n < 10")
    case True
    then show ?thesis by (auto simp: dec.simps [of n])
  next
    case False
    then have pos: "n div 10 \<noteq> 0" by simp
    have "hd (dec (n div 10)) \<noteq> 48"
    proof
      assume h: "hd (dec (n div 10)) = 48"
      with 1 False have "dec (n div 10) = [48]" by simp
      then have "parseInt (dec (n div 10)) = 0" by (simp add: parseInt_def)
      with pos show False by (simp add: parseInt_dec)
    qed
    with False show ?thesis by (simp add: dec.simps [of n] dec_nonempty)
  qed
qed

lemma array_index_dec: "array_index (dec n) = (if n < MAX_LENGTH then Some n else None)"
  using dec_no_leading_zero [of n]
  by (simp add: array_index_def dec_nonempty dec_digits parseInt_dec)

lemma dec_not_length: "dec n \<noteq> js ''length''"
proof
  assume "dec n = js ''length''"
  with dec_digits [of n] show False by (simp add: is_digit_def)
qed

lemma array_index_not_length: "array_index (js ''length'') = None"
  by (simp add: array_index_def is_digit_def)

lemma dec_not_proto: "dec n \<noteq> js ''__proto__''"
proof
  assume "dec n = js ''__proto__''"
  with dec_digits [of n] show False by (simp add: is_digit_def)
qed

lemma dec_not_accessor: "\<not> accessor_key c (dec n)"
  using dec_not_proto [of n] by (simp add: accessor_key_def)

lemma seg_key_small: "idx \<le> MAX_EXACT \<Longrightarrow> seg_key rt (Index idx) = Inr (dec idx)"
  by (simp add: seg_key_def)

section \<open>Containers\<close>

lemma put_index_length: "length (put_index es i v) = max (length es) (Suc i)"
  by (simp add: put_index_def)

lemma put_index_nth: "put_index es i v ! i = Some v"
  by (simp add: put_index_def)

lemma own_prop_put:
  assumes "is_container c" "isArray c \<Longrightarrow> k \<noteq> js ''length''"
  shows "own_prop (put_prop c k v) k = Some v"
proof (cases c)
  case (Obj ps)
  then show ?thesis by (simp add: own_prop_def put_prop_def update_conv')
next
  case (Arr es ps)
  with assms have ne: "k \<noteq> js ''length''" by (simp add: isArray_def)
  show ?thesis
  proof (cases "array_index k")
    case None
    with Arr ne show ?thesis by (simp add: own_prop_def put_prop_def update_conv')
  next
    case (Some i)
    with Arr ne show ?thesis
      by (simp add: own_prop_def put_prop_def put_index_length put_index_nth)
  qed
qed (use assms in \<open>simp_all add: is_container_def\<close>)

lemma put_prop_container: "is_container c \<Longrightarrow> is_container (put_prop c k v)"
  by (cases c) (simp_all add: is_container_def put_prop_def split: option.splits)


lemma container_not_nullish: "is_container c \<Longrightarrow> \<not> is_nullish c"
  by (cases c) (simp_all add: is_container_def is_nullish_def)

lemma container_typeof: "is_container c \<Longrightarrow> typeof_object c"
  by (cases c) (simp_all add: is_container_def typeof_object_def)

lemma get_prop_put:
  assumes "is_container c" "isArray c \<Longrightarrow> k \<noteq> js ''length''"
  shows "get_prop rt (put_prop c k v) k = Inr v"
  using own_prop_put [OF assms] container_not_nullish [OF put_prop_container [OF assms(1)]]
  by (simp add: get_prop_def)

lemma set_prop_container:
  assumes "is_container c" "isArray c \<Longrightarrow> k \<noteq> js ''length''" "\<not> accessor_key c k"
  shows "set_prop rt c k v = Inr (put_prop c k v)"
  using assms
  by (cases c) (simp_all add: set_prop_def is_container_def isArray_def is_nullish_def)

lemma get_length_array:
  "isArray c \<Longrightarrow> is_container c \<Longrightarrow> \<exists>n. get_prop rt c (js ''length'') = Inr (Num n)"
  by (cases c)
    (simp_all add: isArray_def is_container_def get_prop_def is_nullish_def own_prop_def)

lemma nullish_slot_not_length:
  assumes "get_prop rt c k = Inr slot" "is_nullish slot" "isArray c" "is_container c"
  shows "k \<noteq> js ''length''"
  using assms get_length_array [OF assms(3,4), of rt] by (auto simp: is_nullish_def)

section \<open>Growing an array\<close>

text \<open>
  C7, as stated, fails for an index from \<open>2^32 - 1\<close> on: an array cannot be that long.
  \<open>setTinyJsonPath([], "$[4294967295]", 1)\<close> runs \<open>cur.length = 4294967296\<close>, which
  throws a \<open>RangeError\<close>, and the array stays empty.
\<close>

theorem huge_index_throws:
  "setTinyJsonPath engine (Arr [] []) (js ''$[4294967295]'') (Num 1) =
     (Arr [] [], Inl RangeError)"
  by (simp add: scan_eval val_eval)

text \<open>
  C7, amended. When the final segment is an index \<open>idx\<close> at or beyond the length of the
  array it addresses, and \<open>idx + 1\<close> is a length an array can have (\<open>idx < 2^32 - 1\<close>),
  the call returns \<open>true\<close>, the array has length \<open>idx + 1\<close>, the element at \<open>idx\<close> is
  the value, every element below the old length is what it was, and the slots from the
  old length up to \<open>idx\<close> are holes.
\<close>

theorem final_index_grows_array:
  assumes "length es \<le> idx" "idx < MAX_LENGTH"
  shows "\<exists>es'. assign_walk rt [Index idx] v (Arr es ps) = (Arr es' ps, Inr True) \<and>
           length es' = idx + 1 \<and> es' ! idx = Some v \<and>
           (\<forall>i. i < length es \<longrightarrow> es' ! i = es ! i) \<and>
           (\<forall>i. length es \<le> i \<and> i < idx \<longrightarrow> es' ! i = None)"
proof -
  let ?es1 = "es @ replicate (idx + 1 - length es) None"
  let ?es2 = "?es1[idx := Some v]"
  have len1: "length ?es1 = idx + 1" using assms(1) by simp
  have grow: "set_prop rt (Arr es ps) (js ''length'') (Num (int idx + 1)) = Inr (Arr ?es1 ps)"
    using assms
    by (simp add: set_prop_def set_length_def length_of_def nat_add_distrib is_nullish_def)
  have "put_index ?es1 idx v = ?es2" using len1 by (simp add: put_index_def)
  then have store: "set_prop rt (Arr ?es1 ps) (dec idx) v = Inr (Arr ?es2 ps)"
    using assms(2) dec_not_length [of idx] dec_not_accessor [of "Arr ?es1 ps" idx]
    by (simp add: set_prop_def put_prop_def array_index_dec is_nullish_def)
  have run: "assign_walk rt [Index idx] v (Arr es ps) = (Arr ?es2 ps, Inr True)"
    using assms grow store by (simp add: assign_last_def isArray_def)
  have "length ?es2 = idx + 1" using len1 by simp
  moreover have "?es2 ! idx = Some v" using len1 by simp
  moreover have "\<forall>i. i < length es \<longrightarrow> ?es2 ! i = es ! i"
    using assms(1) by (auto simp: nth_append)
  moreover have "\<forall>i. length es \<le> i \<and> i < idx \<longrightarrow> ?es2 ! i = None"
    by (auto simp: nth_append)
  ultimately show ?thesis using run by blast
qed

theorem final_index_grows_array_witness:
  "length [Some (Str (js ''x''))] \<le> (3::nat) \<and> (3::nat) < MAX_LENGTH \<and>
   assign_walk engine [Index 3] (Str (js ''y'')) (Arr [Some (Str (js ''x''))] []) =
     (Arr [Some (Str (js ''x'')), None, None, Some (Str (js ''y''))] [], Inr True)"
proof -
  have three: "(3::nat) = Suc (Suc (Suc 0))" by simp
  have rep: "replicate 3 (None :: jsval option) = [None, None, None]"
    by (simp add: three)
  have upd: "[a, b, c, d][3 := e] = [a, b, c, e]" for a b c d e :: "jsval option"
    by (simp add: three)
  have run: "assign_walk engine [Index 3] (Str (js ''y'')) (Arr [Some (Str (js ''x''))] []) =
     (Arr [Some (Str (js ''x'')), None, None, Some (Str (js ''y''))] [], Inr True)"
    by (simp add: val_eval is_digit_def parseInt_def dec.simps rep upd)
  from final_index_grows_array [where es = "[Some (Str (js ''x''))]" and idx = 3 and rt = engine
      and v = "Str (js ''y'')" and ps = "[]"]
  have "\<exists>es'. assign_walk engine [Index 3] (Str (js ''y'')) (Arr [Some (Str (js ''x''))] []) =
          (Arr es' [], Inr True) \<and> length es' = 3 + 1"
    by auto
  with run show ?thesis by simp
qed

section \<open>Containers along the walk\<close>

lemma object_slot_kinds:
  "\<not> is_nullish slot \<Longrightarrow> typeof_object slot \<Longrightarrow> is_container slot \<or> (\<exists>kd b. slot = Builtin kd b)"
  by (cases slot) (simp_all add: is_nullish_def typeof_object_def is_container_def)








text \<open>
  C6, as stated, fails: an absent slot under an index segment gets no container when the
  current container is no array. In \<open>setTinyJsonPath({}, "$[0].b", 1)\<close> the slot
  \<open>{}[0]\<close> is missing and the segment is not the last, yet the call creates nothing:
  it returns \<open>false\<close> at \<open>!Array.isArray(cur)\<close> and leaves the object empty.
\<close>

theorem absent_slot_under_index_on_object:
  "get_prop engine (Obj []) (js ''0'') = Inr Undefined \<and>
   setTinyJsonPath engine (Obj []) (js ''$[0].b'') (Num 1) = (Obj [], Inr False)"
  by (simp add: scan_eval val_eval)

text \<open>
  C6, amended. In \<open>setTinyJsonPath\<close>, take a segment before the last that addresses a
  container of its kind (an array for an index segment, an object or an array for a key
  segment) under a key other than the inherited accessor \<open>__proto__\<close>. If its slot is
  absent (\<open>null\<close>, \<open>undefined\<close> or missing), the slot gets a new container, chosen by the
  next segment: an array if that is an index segment, an object otherwise. The walk goes
  on inside the new container.
\<close>

theorem absent_slot_gets_container:
  assumes "case seg of Index _ \<Rightarrow> isArray cur \<and> is_container cur | Key _ \<Rightarrow> is_container cur"
    and "seg_key rt seg = Inr k" and "\<not> accessor_key cur k"
    and "get_prop rt cur k = Inr slot" and "is_nullish slot"
  shows "get_prop rt (put_prop cur k (fresh_for next)) k = Inr (fresh_for next)
    \<and> fresh_for next = (case next of Index _ \<Rightarrow> Arr [] [] | Key _ \<Rightarrow> Obj [])
    \<and> assign_walk rt (seg # next # rest) v cur =
        (case assign_walk rt (next # rest) v (fresh_for next) of
           (child', r) \<Rightarrow> (put_prop (put_prop cur k (fresh_for next)) k child', r))"
proof -
  from assms(1) have cont: "is_container cur" by (cases seg) simp_all
  have nl: "isArray cur \<Longrightarrow> k \<noteq> js ''length''"
    using nullish_slot_not_length [OF assms(4,5) _ cont] .
  have guard: "\<not> (case seg of Index _ \<Rightarrow> \<not> isArray cur | Key _ \<Rightarrow> False)"
    using assms(1) by (cases seg) simp_all
  have s: "set_prop rt cur k (fresh_for next) = Inr (put_prop cur k (fresh_for next))"
    using set_prop_container [OF cont nl assms(3)] by simp
  have g: "get_prop rt (put_prop cur k (fresh_for next)) k = Inr (fresh_for next)"
    using get_prop_put [OF cont nl] by simp
  have o: "own_prop (put_prop cur k (fresh_for next)) k = Some (fresh_for next)"
    using own_prop_put [OF cont nl] by simp
  have "assign_walk rt (seg # next # rest) v cur =
        (case assign_walk rt (next # rest) v (fresh_for next) of
           (child', r) \<Rightarrow> (put_prop (put_prop cur k (fresh_for next)) k child', r))"
    using guard assms(2,4,5) s g o by (simp add: assign_walk_step)
  with g show ?thesis by (simp add: fresh_for_def)
qed

theorem absent_slot_gets_container_witness:
  "seg_key engine (Key (js ''a'')) = Inr (js ''a'') \<and> \<not> accessor_key (Obj []) (js ''a'') \<and>
   get_prop engine (Obj []) (js ''a'') = Inr Undefined \<and> is_nullish Undefined \<and>
   get_prop engine (put_prop (Obj []) (js ''a'') (Arr [] [])) (js ''a'') = Inr (Arr [] []) \<and>
   assign_walk engine [Key (js ''a''), Index 0] (Num 1) (Obj []) =
     (Obj [(js ''a'', Arr [Some (Num 1)] [])], Inr True)"
  using absent_slot_gets_container
    [where seg = "Key (js ''a'')" and cur = "Obj []" and rt = engine and slot = Undefined
       and k = "js ''a''" and ?next = "Index 0" and rest = "[]" and v = "Num 1"]
  by (simp add: val_eval is_digit_def parseInt_def dec.simps)

section \<open>Kinds of containers along the walk\<close>









section \<open>Written paths\<close>

lemma ws_not_key: "is_ws c \<Longrightarrow> \<not> is_key_char c"
  unfolding is_ws_def is_key_char_def is_digit_def by arith

lemma ws_not_digit: "is_ws c \<Longrightarrow> \<not> is_digit c"
  unfolding is_ws_def is_digit_def by arith

lemma special_not_ws:
  "\<not> is_ws DOT" "\<not> is_ws LBRACKET" "\<not> is_ws RBRACKET" "\<not> is_ws DQUOTE" "\<not> is_ws SQUOTE"
  by (simp_all add: is_ws_def)

lemma eatWs_skip: "list_all is_ws w \<Longrightarrow> \<not> is_ws c \<Longrightarrow> eatWs (w @ c # r) = c # r"
  unfolding eatWs_def by (induction w) simp_all

lemma eatWs_all: "list_all is_ws w \<Longrightarrow> eatWs w = []"
  unfolding eatWs_def by (induction w) simp_all

lemma eatWs_append: "list_all is_ws w \<Longrightarrow> eatWs (w @ r) = eatWs r"
  unfolding eatWs_def by (induction w) simp_all

lemma takeWhile_run:
  "list_all P xs \<Longrightarrow> (case tail of [] \<Rightarrow> True | c # _ \<Rightarrow> \<not> P c) \<Longrightarrow>
   takeWhile P (xs @ tail) = xs \<and> dropWhile P (xs @ tail) = tail"
  by (induction xs) (auto split: list.splits)

lemma quoted_run:
  "q \<notin> set key \<Longrightarrow>
   takeWhile (\<lambda>c. c \<noteq> q) (key @ q # r) = key \<and> dropWhile (\<lambda>c. c \<noteq> q) (key @ q # r) = q # r"
  by (induction key) auto

lemma scan_dot_written:
  assumes "list_all is_ws w1" "key \<noteq> []" "list_all is_key_char key" "stops_key tail"
  shows "scan_dot (w1 @ key @ tail) = Seg (Key key) tail"
proof -
  from assms(2,3) obtain c k' where k: "key = c # k'" "is_key_char c"
    by (cases key) auto
  then have "\<not> is_ws c" using ws_not_key by blast
  with assms(1) k have e: "eatWs (w1 @ key @ tail) = key @ tail"
    using eatWs_skip [of w1 c "k' @ tail"] by simp
  from takeWhile_run [OF assms(3), of tail] assms(4)
  have "takeWhile is_key_char (key @ tail) = key" "dropWhile is_key_char (key @ tail) = tail"
    by (simp_all add: stops_key_def)
  with e assms(2) show ?thesis by (simp add: scan_dot_def)
qed

lemma scan_quoted_written:
  assumes "q \<notin> set key" "list_all is_ws w2"
  shows "scan_quoted q (key @ [q] @ w2 @ [RBRACKET] @ tail) = Seg (Key key) tail"
  using quoted_run [OF assms(1), of "w2 @ [RBRACKET] @ tail"]
    eatWs_skip [OF assms(2) special_not_ws(3), of tail]
  by (simp add: scan_quoted_def)

lemma scan_index_written:
  assumes "ds \<noteq> []" "list_all is_digit ds" "isFinite (parseInt ds)" "list_all is_ws w2"
  shows "scan_index (ds @ w2 @ [RBRACKET] @ tail) = Seg (Index (parseInt ds)) tail"
proof -
  have "case w2 @ [RBRACKET] @ tail of [] \<Rightarrow> True | c # _ \<Rightarrow> \<not> is_digit c"
    using assms(4) ws_not_digit by (cases w2) (auto simp: is_digit_def)
  from takeWhile_run [OF assms(2) this]
  have "takeWhile is_digit (ds @ w2 @ [RBRACKET] @ tail) = ds"
    "dropWhile is_digit (ds @ w2 @ [RBRACKET] @ tail) = w2 @ [RBRACKET] @ tail" by simp_all
  with assms(1,3) eatWs_skip [OF assms(4) special_not_ws(3), of tail]
  show ?thesis by (simp add: scan_index_def)
qed

lemma scan_segment_start:
  assumes "list_all is_ws w0" "\<not> is_ws c"
  shows "scan_segment (w0 @ c # r) =
     (if c = DOT then scan_dot r else if c = LBRACKET then scan_bracket r else EndOfPath)"
  using eatWs_skip [OF assms, of r] assms(2)
  by (simp add: scan_segment.simps [of "w0 @ c # r"])

lemma scan_segment_written:
  assumes "well_formed w" "case w of WDot _ _ _ \<Rightarrow> stops_key tail | _ \<Rightarrow> True"
  shows "scan_segment (render w @ tail) = Seg (segment_of w) tail"
proof (cases w)
  case (WDot w0 w1 key)
  with assms show ?thesis
    using scan_segment_start [of w0 DOT "w1 @ key @ tail"] scan_dot_written [of w1 key tail]
    by (simp add: special_not_ws)
next
  case (WQuoted w0 w1 q key w2)
  with assms have q: "q = DQUOTE \<or> q = SQUOTE" "\<not> is_ws q" by (auto simp: is_ws_def)
  from WQuoted assms have "eatWs (w1 @ q # key @ [q] @ w2 @ [RBRACKET] @ tail) =
      q # key @ [q] @ w2 @ [RBRACKET] @ tail"
    using eatWs_skip [of w1 q] q(2) by simp
  with q(1) have "scan_bracket (w1 @ q # key @ [q] @ w2 @ [RBRACKET] @ tail) =
      scan_quoted q (key @ [q] @ w2 @ [RBRACKET] @ tail)"
    by (auto simp: scan_bracket_def)
  with WQuoted assms show ?thesis
    using scan_segment_start [of w0 LBRACKET "w1 @ q # key @ [q] @ w2 @ [RBRACKET] @ tail"]
      scan_quoted_written [of q key w2 tail]
    by (simp add: special_not_ws)
next
  case (WIndex w0 w1 ds w2)
  with assms obtain d ds' where d: "ds = d # ds'" "is_digit d"
    by (cases ds) auto
  then have nd: "\<not> is_ws d" "d \<noteq> DQUOTE" "d \<noteq> SQUOTE"
    using ws_not_digit by (auto simp: is_digit_def)
  from WIndex assms d nd have "eatWs (w1 @ ds @ w2 @ [RBRACKET] @ tail) =
      ds @ w2 @ [RBRACKET] @ tail"
    using eatWs_skip [of w1 d "ds' @ w2 @ [RBRACKET] @ tail"] by simp
  with d nd have "scan_bracket (w1 @ ds @ w2 @ [RBRACKET] @ tail) =
      scan_index (ds @ w2 @ [RBRACKET] @ tail)"
    by (simp add: scan_bracket_def)
  with WIndex assms show ?thesis
    using scan_segment_start [of w0 LBRACKET "w1 @ ds @ w2 @ [RBRACKET] @ tail"]
      scan_index_written [of ds w2 tail]
    by (simp add: special_not_ws)
qed


lemma tokenize_Nil: "tokenize path = Some [] \<Longrightarrow> scan_segment path = EndOfPath"
  by (auto simp: tokenize.simps [of path] split: scan.splits option.splits)

lemma tokenize_Cons:
  "tokenize path = Some (s # segs) \<Longrightarrow>
   \<exists>rest. scan_segment path = Seg s rest \<and> tokenize rest = Some segs"
  by (auto simp: tokenize.simps [of path] split: scan.splits option.splits)

lemma lookup_tokenized:
  "tokenize path = Some segs \<Longrightarrow> lookup_loop rt cur path = lookup_segs rt cur segs"
proof (induction segs arbitrary: path cur)
  case Nil
  then show ?case using tokenize_Nil [of path] by (simp add: lookup_loop.simps [of rt cur path])
next
  case (Cons s segs)
  from tokenize_Cons [OF Cons.prems] obtain rest
    where r: "scan_segment path = Seg s rest" "tokenize rest = Some segs" by blast
  from Cons.IH [OF r(2)] r(1) show ?case
    by (cases s) (simp_all add: lookup_loop.simps [of rt cur path] split: sum.splits)
qed

lemma render_stops_key: "well_formed w \<Longrightarrow> stops_key (render w @ tail)"
proof (cases w)
  case (WDot w0 w1 key)
  assume "well_formed w"
  with WDot show ?thesis
    by (cases w0) (auto simp: stops_key_def is_key_char_def is_digit_def dest: ws_not_key)
next
  case (WQuoted w0 w1 q key w2)
  assume "well_formed w"
  with WQuoted show ?thesis
    by (cases w0) (auto simp: stops_key_def is_key_char_def is_digit_def dest: ws_not_key)
next
  case (WIndex w0 w1 ds w2)
  assume "well_formed w"
  with WIndex show ?thesis
    by (cases w0) (auto simp: stops_key_def is_key_char_def is_digit_def dest: ws_not_key)
qed

lemma ws_stops_key: "list_all is_ws trail \<Longrightarrow> stops_key trail"
  by (cases trail) (auto simp: stops_key_def dest: ws_not_key)

lemma written_stops_key:
  "list_all well_formed ws \<Longrightarrow> stops_key tail \<Longrightarrow> stops_key (concat (map render ws) @ tail)"
  by (cases ws) (simp_all add: render_stops_key)

lemma tokenize_written_tail:
  "list_all well_formed ws \<Longrightarrow> stops_key tail \<Longrightarrow>
   tokenize (concat (map render ws) @ tail) =
     (case tokenize tail of None \<Rightarrow> None | Some segs \<Rightarrow> Some (map segment_of ws @ segs))"
proof (induction ws)
  case Nil
  then show ?case by (simp split: option.splits)
next
  case (Cons w ws)
  let ?rest = "concat (map render ws) @ tail"
  from Cons.prems have wf: "well_formed w" "list_all well_formed ws" by simp_all
  have "stops_key ?rest" using written_stops_key [OF wf(2) Cons.prems(2)] .
  then have "scan_segment (render w @ ?rest) = Seg (segment_of w) ?rest"
    using scan_segment_written [OF wf(1), of ?rest] by (cases w) simp_all
  then have "tokenize (render w @ ?rest) =
      (case tokenize ?rest of None \<Rightarrow> None | Some segs \<Rightarrow> Some (segment_of w # segs))"
    by (simp add: tokenize.simps [of "render w @ ?rest"])
  with Cons.IH [OF wf(2) Cons.prems(2)] show ?case by (simp split: option.splits)
qed

lemma scan_segment_ws: "list_all is_ws trail \<Longrightarrow> scan_segment trail = EndOfPath"
  by (simp add: scan_segment.simps [of trail] eatWs_all)

lemma tokenize_ws: "list_all is_ws trail \<Longrightarrow> tokenize trail = Some []"
  by (simp add: tokenize.simps [of trail] scan_segment_ws)

lemma tokenize_written:
  "list_all well_formed ws \<Longrightarrow> list_all is_ws trail \<Longrightarrow>
   tokenize (concat (map render ws) @ trail) = Some (map segment_of ws)"
  using tokenize_written_tail [OF _ ws_stops_key, of ws trail] by (simp add: tokenize_ws)

lemma segment_of_unspaced: "segment_of (unspaced w) = segment_of w"
  by (cases w) simp_all

lemma segments_unspaced:
  assumes "map unspaced ws' = map unspaced ws"
  shows "map segment_of ws' = map segment_of ws"
proof -
  have "map segment_of xs = map (segment_of \<circ> unspaced) xs" for xs
    by (simp add: segment_of_unspaced)
  then have "map segment_of xs = map segment_of (map unspaced xs)" for xs
    by simp
  with assms show ?thesis by metis
qed

lemma unicode_white_space_is_ws:
  "unicode_white_space c \<Longrightarrow> c \<noteq> 133 \<Longrightarrow> is_ws c"
  by (auto simp: unicode_white_space_def is_ws_def)

text \<open>
  C9, as stated, fails: U+0085 (next line) is Unicode whitespace, and \<^verbatim>\<open>/\s/\<close> does not
  match it. Put before the dot of \<open>$.a\<close> it ends the scan: the lookup on \<open>{a: 1}\<close>
  returns the root instead of 1, and the assignment on \<open>{}\<close> returns \<open>false\<close> instead
  of storing the value.
\<close>

theorem next_line_is_not_skipped:
  "unicode_white_space 133 \<and>
   getTinyJsonPath engine (Obj [(js ''a'', Num 1)]) (js ''$.a'') = Inr (Num 1) \<and>
   getTinyJsonPath engine (Obj [(js ''a'', Num 1)]) ([DOLLAR, 133] @ js ''.a'') =
     Inr (Obj [(js ''a'', Num 1)]) \<and>
   setTinyJsonPath engine (Obj []) (js ''$.a'') (Num 2) = (Obj [(js ''a'', Num 2)], Inr True) \<and>
   setTinyJsonPath engine (Obj []) ([DOLLAR, 133] @ js ''.a'') (Num 2) = (Obj [], Inr False)"
  by (simp add: scan_eval val_eval unicode_white_space_def)

text \<open>
  C9, amended. Take as whitespace what the regular expression \<^verbatim>\<open>/\s/\<close> of the code
  matches: every Unicode whitespace character except U+0085, and U+FEFF. Two
  well-formed paths that differ only in such whitespace at the places the grammar
  permits (the same segments once the whitespace is taken out) give the same result of
  \<open>getTinyJsonPath\<close>, and the same result and the same structure after
  \<open>setTinyJsonPath\<close>.
\<close>

theorem whitespace_is_ignored:
  assumes "list_all well_formed ws" "list_all well_formed ws'"
    and "map unspaced ws' = map unspaced ws"
    and "list_all is_ws trail" "list_all is_ws trail'"
  shows "getTinyJsonPath rt obj (written_path ws' trail') =
           getTinyJsonPath rt obj (written_path ws trail) \<and>
         setTinyJsonPath rt obj (written_path ws' trail') v =
           setTinyJsonPath rt obj (written_path ws trail) v"
proof -
  have t: "tokenize (concat (map render ws) @ trail) = Some (map segment_of ws)"
    using tokenize_written [OF assms(1,4)] .
  have t': "tokenize (concat (map render ws') @ trail') = Some (map segment_of ws)"
    using tokenize_written [OF assms(2,5)] segments_unspaced [OF assms(3)] by simp
  show ?thesis
    by (simp add: getTinyJsonPath_def setTinyJsonPath_def written_path_def t t'
        lookup_tokenized [OF t] lookup_tokenized [OF t'])
qed

theorem whitespace_is_ignored_witness:
  "getTinyJsonPath engine (Obj [(js ''users'', Arr [Some (Num 7), Some (Num 8)] [])])
      (js ''$  .  users  [ 1 ]  '') = Inr (Num 8) \<and>
   getTinyJsonPath engine (Obj [(js ''users'', Arr [Some (Num 7), Some (Num 8)] [])])
      (js ''$.users[1]'') = Inr (Num 8) \<and>
   setTinyJsonPath engine (Obj []) (js ''$  .  users  [ 1 ]  '') (Num 1) =
     setTinyJsonPath engine (Obj []) (js ''$.users[1]'') (Num 1)"
proof -
  let ?ws' = "[WDot (js ''  '') (js ''  '') (js ''users''), WIndex (js ''  '') (js '' '') (js ''1'') (js '' '')]"
  let ?ws = "[WDot [] [] (js ''users''), WIndex [] [] (js ''1'') []]"
  have wf: "list_all well_formed ?ws" "list_all well_formed ?ws'"
    by (simp_all add: is_ws_def is_key_char_def is_digit_def isFinite_def parseInt_def)
  have sp: "list_all is_ws []" "list_all is_ws (js ''  '')" by (simp_all add: is_ws_def)
  have p: "written_path ?ws' (js ''  '') = js ''$  .  users  [ 1 ]  ''"
    "written_path ?ws [] = js ''$.users[1]''"
    by (simp_all add: written_path_def)
  have g: "getTinyJsonPath engine (Obj [(js ''users'', Arr [Some (Num 7), Some (Num 8)] [])])
      (js ''$.users[1]'') = Inr (Num 8)"
    by (simp add: scan_eval val_eval dec.simps)
  from whitespace_is_ignored [OF wf(1) wf(2) _ sp(1) sp(2), where rt = engine]
  show ?thesis using g unfolding p by simp
qed

section \<open>Where a lookup can stop\<close>

lemma get_prop_stops:
  assumes "get_prop rt v k = Inl e" "\<not> is_nullish v"
  shows "own_prop v k = None \<and> engine_get rt v k = Inl e"
  using assms by (auto simp: get_prop_def split: option.splits)

lemma seg_key_stops:
  assumes "seg_key rt (Index idx) = Inl e"
  shows "MAX_EXACT < idx \<and> big_key rt idx = Inl e"
  using assms by (auto simp: seg_key_def split: if_splits)

lemma lookup_loop_stops:
  "lookup_loop rt cur path = Inl e \<Longrightarrow>
   (\<exists>v k. \<not> is_nullish v \<and> own_prop v k = None \<and> engine_get rt v k = Inl e) \<or>
   (\<exists>n. MAX_EXACT < n \<and> big_key rt n = Inl e)"
proof (induction rt cur path rule: lookup_loop.induct)
  case (1 rt cur path)
  show ?case
  proof (cases "scan_segment path")
    case EndOfPath
    with "1.prems" show ?thesis by (simp add: lookup_loop.simps [of rt cur path])
  next
    case Malformed
    with "1.prems" show ?thesis by (simp add: lookup_loop.simps [of rt cur path])
  next
    case (Seg s rest)
    show ?thesis
    proof (cases s)
      case (Key key)
      from "1.prems" Seg Key have nn: "\<not> is_nullish cur"
        by (auto simp: lookup_loop.simps [of rt cur path] split: if_splits)
      show ?thesis
      proof (cases "get_prop rt cur key")
        case (Inl e')
        with "1.prems" Seg Key nn have "e' = e"
          by (simp add: lookup_loop.simps [of rt cur path])
        with Inl get_prop_stops [of rt cur key e] nn show ?thesis by blast
      next
        case (Inr x)
        with "1.prems" Seg Key nn have "lookup_loop rt x rest = Inl e"
          by (simp add: lookup_loop.simps [of rt cur path])
        with "1.IH"(1) [OF Seg Key nn Inr] show ?thesis by blast
      qed
    next
      case (Index idx)
      from "1.prems" Seg Index have ia: "isArray cur"
        by (auto simp: lookup_loop.simps [of rt cur path] split: if_splits)
      then have nn: "\<not> is_nullish cur" by (rule isArray_not_nullish)
      from ia have nia: "\<not> \<not> isArray cur" by simp
      show ?thesis
      proof (cases "seg_key rt (Index idx)")
        case (Inl e')
        with "1.prems" Seg Index ia have "e' = e"
          by (simp add: lookup_loop.simps [of rt cur path])
        with Inl seg_key_stops [of rt idx e] show ?thesis by blast
      next
        case k: (Inr key)
        show ?thesis
        proof (cases "get_prop rt cur key")
          case (Inl e')
          with "1.prems" Seg Index ia k have "e' = e"
            by (simp add: lookup_loop.simps [of rt cur path])
          with Inl get_prop_stops [of rt cur key e] nn show ?thesis by blast
        next
          case (Inr x)
          with "1.prems" Seg Index ia k have "lookup_loop rt x rest = Inl e"
            by (simp add: lookup_loop.simps [of rt cur path])
          with "1.IH"(2) [OF Seg Index nia k Inr] show ?thesis by blast
        qed
      qed
    qed
  qed
qed

text \<open>
  C10, as stated, fails: a lookup can throw. \<open>getTinyJsonPath({}, "$.constructor.caller")\<close>
  reads \<open>constructor\<close>, the inherited function \<open>Object\<close>, which passes the test
  \<open>cur == null\<close>; the read of \<open>caller\<close> on it runs the getter of
  \<open>Function.prototype\<close>, and that getter throws a \<open>TypeError\<close>.
\<close>

theorem lookup_throws_on_caller:
  "getTinyJsonPath engine (Obj []) (js ''$.constructor.caller'') = Inl TypeError"
  by (simp add: scan_eval val_eval)

text \<open>
  C10, amended. For every root value, \<open>null\<close>, \<open>undefined\<close> and the primitives among
  them, and every path, \<open>getTinyJsonPath\<close> terminates, and it returns a value or
  \<open>undefined\<close> unless a read that the engine answers stops it: a read through the
  prototype chain, or of a property of an object of the engine, in which a getter throws
  (or the key of an index above \<open>2^53\<close>). The error is then that one. The code itself
  never reads a property of \<open>null\<close> or \<open>undefined\<close>: a key read comes after the test
  \<open>cur == null\<close>, an index read after \<open>Array.isArray(cur)\<close>.
\<close>

theorem lookup_stops_only_in_engine:
  assumes "getTinyJsonPath rt obj path = Inl e"
  shows "(\<exists>v k. \<not> is_nullish v \<and> own_prop v k = None \<and> engine_get rt v k = Inl e) \<or>
         (\<exists>n. MAX_EXACT < n \<and> big_key rt n = Inl e)"
proof -
  from assms obtain rest where "path = DOLLAR # rest" "lookup_loop rt obj rest = Inl e"
    by (cases path) (auto simp: getTinyJsonPath_def split: if_splits)
  then show ?thesis using lookup_loop_stops [of rt obj rest e] by blast
qed

theorem lookup_stops_only_in_engine_witness:
  "getTinyJsonPath engine (Obj []) (js ''$.constructor.caller'') = Inl TypeError \<and>
   ((\<exists>v k. \<not> is_nullish v \<and> own_prop v k = None \<and> engine_get engine v k = Inl TypeError) \<or>
    (\<exists>n. MAX_EXACT < n \<and> big_key engine n = Inl TypeError))"
proof -
  have g: "getTinyJsonPath engine (Obj []) (js ''$.constructor.caller'') = Inl TypeError"
    by (simp add: scan_eval val_eval)
  from lookup_stops_only_in_engine [OF g] g show ?thesis by blast
qed

section \<open>Backslash before a quote\<close>

lemma lookup_written_tail:
  "list_all well_formed ws \<Longrightarrow> stops_key tail \<Longrightarrow>
   (\<exists>e. lookup_loop rt cur (concat (map render ws) @ tail) = Inl e) \<or>
   lookup_loop rt cur (concat (map render ws) @ tail) = Inr Undefined \<or>
   (\<exists>cur'. lookup_loop rt cur (concat (map render ws) @ tail) = lookup_loop rt cur' tail)"
proof (induction ws arbitrary: cur)
  case Nil
  then show ?case by auto
next
  case (Cons w ws)
  let ?rest = "concat (map render ws) @ tail"
  let ?path = "render w @ ?rest"
  from Cons.prems have wf: "well_formed w" "list_all well_formed ws" by simp_all
  have "stops_key ?rest" using written_stops_key [OF wf(2) Cons.prems(2)] .
  then have sc: "scan_segment ?path = Seg (segment_of w) ?rest"
    using scan_segment_written [OF wf(1), of ?rest] by (cases w) simp_all
  have step: "(\<exists>e. lookup_loop rt cur ?path = Inl e) \<or> lookup_loop rt cur ?path = Inr Undefined \<or>
      (\<exists>x. lookup_loop rt cur ?path = lookup_loop rt x ?rest)"
    using sc
    by (cases "segment_of w")
      (auto simp: lookup_loop.simps [of rt cur ?path] split: sum.splits)
  from step consider (stop) "\<exists>e. lookup_loop rt cur ?path = Inl e"
    | (undef) "lookup_loop rt cur ?path = Inr Undefined"
    | (go) x where "lookup_loop rt cur ?path = lookup_loop rt x ?rest"
    by blast
  then show ?case
  proof cases
    case stop
    then show ?thesis by simp
  next
    case undef
    then show ?thesis by simp
  next
    case go
    from Cons.IH [OF wf(2) Cons.prems(2), of x] go show ?thesis by auto
  qed
qed

lemma scan_escaped_quote:
  assumes "list_all is_ws w0" "list_all is_ws w1" "q = DQUOTE \<or> q = SQUOTE" "q \<notin> set s1"
    and "case eatWs after of [] \<Rightarrow> True | b # _ \<Rightarrow> b \<noteq> RBRACKET"
  shows "scan_segment (w0 @ [LBRACKET] @ w1 @ [q] @ s1 @ [BACKSLASH, q] @ after) = Malformed"
proof -
  from assms(3) have nq: "\<not> is_ws q" "q \<noteq> BACKSLASH" by (auto simp: is_ws_def)
  with assms(4) have "q \<notin> set (s1 @ [BACKSLASH])" by simp
  from quoted_run [OF this, of after]
  have run: "dropWhile (\<lambda>c. c \<noteq> q) (s1 @ [BACKSLASH, q] @ after) = q # after" by simp
  have "scan_quoted q (s1 @ [BACKSLASH, q] @ after) = Malformed"
    using assms(5) run by (simp add: scan_quoted_def split: list.splits)
  moreover have "scan_bracket (w1 @ [q] @ s1 @ [BACKSLASH, q] @ after) =
      scan_quoted q (s1 @ [BACKSLASH, q] @ after)"
    using eatWs_skip [OF assms(2) nq(1), of "s1 @ [BACKSLASH, q] @ after"] assms(3)
    by (auto simp: scan_bracket_def)
  ultimately show ?thesis
    using scan_segment_start [OF assms(1) special_not_ws(2),
        of "w1 @ [q] @ s1 @ [BACKSLASH, q] @ after"]
    by simp
qed

text \<open>
  C8, as stated, fails: a path whose quoted key holds a backslash before a quote can
  succeed. In \<open>$['a\']\<close> the backslash is a character of the key and the quote after it
  closes the key: the path is the one segment with the key \<open>a\\<close>, \<open>setTinyJsonPath\<close>
  returns \<open>true\<close> and \<open>getTinyJsonPath\<close> finds the value. In \<open>$['a\']']\<close> the scanner
  reads the same segment and stops at the next quote with that segment held, and
  \<open>setTinyJsonPath\<close> returns \<open>true\<close> again.
\<close>

theorem escaped_quote_path_assigns:
  "setTinyJsonPath engine (Obj [])
     (js ''$['' @ [SQUOTE] @ js ''a'' @ [BACKSLASH, SQUOTE] @ js '']'') (Num 1) =
     (Obj [(js ''a'' @ [BACKSLASH], Num 1)], Inr True) \<and>
   getTinyJsonPath engine (Obj [(js ''a'' @ [BACKSLASH], Num 1)])
     (js ''$['' @ [SQUOTE] @ js ''a'' @ [BACKSLASH, SQUOTE] @ js '']'') = Inr (Num 1) \<and>
   setTinyJsonPath engine (Obj [])
     (js ''$['' @ [SQUOTE] @ js ''a'' @ [BACKSLASH, SQUOTE] @ js '']'' @ [SQUOTE] @ js '']'')
     (Num 1) = (Obj [(js ''a'' @ [BACKSLASH], Num 1)], Inr True)"
  by (simp add: scan_eval val_eval)

text \<open>
  C8, amended. After well-formed segments, a bracket segment whose quoted key has a
  backslash before the first quote character of its kind, where that quote is not
  followed by optional whitespace and \<open>]\<close> (as in \<open>['o\'clock']\<close>), makes both calls
  fail: the key ends at that quote; \<open>setTinyJsonPath\<close> returns \<open>false\<close> and leaves the
  structure as it was; \<open>getTinyJsonPath\<close> returns \<open>undefined\<close>, unless the read of an
  earlier segment has stopped the call with an error before the scan comes to the
  quoted key.
\<close>

theorem escaped_quote_fails:
  assumes "list_all well_formed ws" "list_all is_ws w0" "list_all is_ws w1"
    and "q = DQUOTE \<or> q = SQUOTE" "q \<notin> set s1"
    and "case eatWs after of [] \<Rightarrow> True | b # _ \<Rightarrow> b \<noteq> RBRACKET"
  shows "(getTinyJsonPath rt obj
            (written_path ws (w0 @ [LBRACKET] @ w1 @ [q] @ s1 @ [BACKSLASH, q] @ after)) =
            Inr Undefined \<or>
          (\<exists>e. getTinyJsonPath rt obj
            (written_path ws (w0 @ [LBRACKET] @ w1 @ [q] @ s1 @ [BACKSLASH, q] @ after)) =
            Inl e)) \<and>
         setTinyJsonPath rt obj
           (written_path ws (w0 @ [LBRACKET] @ w1 @ [q] @ s1 @ [BACKSLASH, q] @ after)) v =
           (obj, Inr False)"
proof -
  let ?tail = "w0 @ [LBRACKET] @ w1 @ [q] @ s1 @ [BACKSLASH, q] @ after"
  have bad: "scan_segment ?tail = Malformed"
    using scan_escaped_quote [OF assms(2-6)] .
  have stop: "stops_key ?tail"
    using assms(2) by (cases w0) (auto simp: stops_key_def is_key_char_def is_digit_def dest: ws_not_key)
  have "tokenize ?tail = None" using bad by (subst tokenize.simps) simp
  then have tok: "tokenize (concat (map render ws) @ ?tail) = None"
    using tokenize_written_tail [OF assms(1) stop] by simp
  have "lookup_loop rt x ?tail = Inr Undefined" for x
    using bad by (subst lookup_loop.simps) simp
  then have "lookup_loop rt obj (concat (map render ws) @ ?tail) = Inr Undefined \<or>
      (\<exists>e. lookup_loop rt obj (concat (map render ws) @ ?tail) = Inl e)"
    using lookup_written_tail [OF assms(1) stop, of rt obj] by auto
  with tok show ?thesis
    by (simp add: getTinyJsonPath_def setTinyJsonPath_def written_path_def)
qed

theorem escaped_quote_fails_witness:
  "getTinyJsonPath engine (Obj [(js ''o'' @ [SQUOTE] @ js ''clock'', Str (js ''twelve''))])
     (js ''$['' @ [SQUOTE] @ js ''o'' @ [BACKSLASH, SQUOTE] @ js ''clock'' @ [SQUOTE] @ js '']'') =
     Inr Undefined \<and>
   setTinyJsonPath engine (Obj [])
     (js ''$['' @ [SQUOTE] @ js ''o'' @ [BACKSLASH, SQUOTE] @ js ''clock'' @ [SQUOTE] @ js '']'')
     (Num 1) = (Obj [], Inr False)"
proof -
  have a: "case eatWs (js ''clock'' @ [SQUOTE] @ js '']'') of [] \<Rightarrow> True | b # _ \<Rightarrow> b \<noteq> RBRACKET"
    by (simp add: eatWs_def is_ws_def)
  have p: "written_path [] ([] @ [LBRACKET] @ [] @ [SQUOTE] @ js ''o'' @ [BACKSLASH, SQUOTE] @
              (js ''clock'' @ [SQUOTE] @ js '']'')) =
           js ''$['' @ [SQUOTE] @ js ''o'' @ [BACKSLASH, SQUOTE] @ js ''clock'' @ [SQUOTE] @ js '']''"
    by (simp add: written_path_def)
  have g: "getTinyJsonPath engine (Obj [(js ''o'' @ [SQUOTE] @ js ''clock'', Str (js ''twelve''))])
     (js ''$['' @ [SQUOTE] @ js ''o'' @ [BACKSLASH, SQUOTE] @ js ''clock'' @ [SQUOTE] @ js '']'') =
     Inr Undefined"
    by (simp add: scan_eval val_eval)
  have "list_all well_formed []" "list_all is_ws []" "SQUOTE = DQUOTE \<or> SQUOTE = SQUOTE"
    "SQUOTE \<notin> set (js ''o'')" by simp_all
  from escaped_quote_fails [OF this(1) this(2) this(2) this(3) this(4) a, where rt = engine
      and obj = "Obj []" and v = "Num 1"]
  show ?thesis using g unfolding p by simp
qed

section \<open>Assign, then look up\<close>








end
